theory Spec2Isabelle
  imports Complex_Main "HOL-Library.Sublist"
begin

section \<open>Python strings\<close>

text \<open>
  A Python \<open>str\<close> is the list of its Unicode code points. A string literal of the source,
  which is ASCII, is written \<open>ascii ''...''\<close>.
\<close>

type_synonym str = "nat list"

definition ascii :: "string \<Rightarrow> str" where
  "ascii s = map of_char s"

definition is_ascii_lower :: "nat \<Rightarrow> bool" where
  "is_ascii_lower c = (97 \<le> c \<and> c \<le> 122)"

definition is_ascii_upper :: "nat \<Rightarrow> bool" where
  "is_ascii_upper c = (65 \<le> c \<and> c \<le> 90)"

definition is_ascii_letter :: "nat \<Rightarrow> bool" where
  "is_ascii_letter c = (is_ascii_upper c \<or> is_ascii_lower c)"

definition ascii_upper :: "nat \<Rightarrow> nat" where
  "ascii_upper c = (if is_ascii_lower c then c - 32 else c)"

definition ascii_lower :: "nat \<Rightarrow> nat" where
  "ascii_lower c = (if is_ascii_upper c then c + 32 else c)"

text \<open>
  \<open>s.upper()\<close> replaces every character by its upper-case form in the Unicode character
  database, which can be several characters long. Below 128 that form is the ASCII one; for
  the other code points the table of the database is the parameter \<open>U\<close>.
\<close>

definition upper_char :: "(nat \<Rightarrow> str) \<Rightarrow> nat \<Rightarrow> str" where
  "upper_char U c = (if c < 128 then [ascii_upper c] else U c)"

definition upper :: "(nat \<Rightarrow> str) \<Rightarrow> str \<Rightarrow> str" where
  "upper U s = concat (map (upper_char U) s)"

text \<open>
  \<open>s.capitalize()\<close> and \<open>s.isalpha()\<close> on an ASCII string, which is what the program applies
  them to (the one character that \<open>decode\<close> returns): the first character in upper case and
  the others in lower case; at least one character, and all of them letters.
\<close>

definition capitalize :: "str \<Rightarrow> str" where
  "capitalize s = (case s of [] \<Rightarrow> [] | c # cs \<Rightarrow> ascii_upper c # map ascii_lower cs)"

definition isalpha :: "str \<Rightarrow> bool" where
  "isalpha s = (s \<noteq> [] \<and> list_all is_ascii_letter s)"

text \<open>
  The characters \<open>str.strip()\<close> removes, the white space of Unicode: tab to carriage return,
  the separators 28 to 31, the space, next line, the no-break space, and the spaces and
  separators from U+1680 on.
\<close>

definition is_space :: "nat \<Rightarrow> bool" where
  "is_space c = ((9 \<le> c \<and> c \<le> 13) \<or> (28 \<le> c \<and> c \<le> 32) \<or> c = 0x85 \<or> c = 0xA0
     \<or> c = 0x1680 \<or> (0x2000 \<le> c \<and> c \<le> 0x200A) \<or> c = 0x2028 \<or> c = 0x2029
     \<or> c = 0x202F \<or> c = 0x205F \<or> c = 0x3000)"

definition strip :: "str \<Rightarrow> str" where
  "strip s = rev (dropWhile is_space (rev (dropWhile is_space s)))"

text \<open>\<open>sub in s\<close> on strings: \<open>sub\<close> occurs in \<open>s\<close> as a contiguous block.\<close>

fun str_in :: "str \<Rightarrow> str \<Rightarrow> bool" where
  "str_in sub [] = (sub = [])"
| "str_in sub (c # cs) = (prefix sub (c # cs) \<or> str_in sub cs)"

section \<open>The window system\<close>

text \<open>
  What \<open>win32gui\<close> lets the program observe of one top-level window, and how the window
  answers the foreground request: \<open>foreground_fault\<close> holds the message of the exception that
  \<open>SetForegroundWindow(handle)\<close> raises, \<open>None\<close> when the call returns.
  \<open>IsWindowVisible\<close>, \<open>GetWindowText\<close> and \<open>GetWindowPlacement\<close> return what the record holds,
  and \<open>ShowWindow(handle, SW_RESTORE)\<close> returns the previous visibility of the window, which
  the program does not read.
\<close>

record window =
  hwnd :: nat
  visible :: bool
  title :: str
  show_cmd :: nat
  foreground_fault :: "str option"

text \<open>
  The state of the window system during one call of \<open>EnumWindows\<close>: the windows it hands to
  the callback, in its order, and the exception it raises itself, if any, when the pass has
  gone through all of them (\<open>enum_fault\<close>) or when the callback has ended it (\<open>stop_fault\<close>).
\<close>

record platform =
  windows :: "window list"
  enum_fault :: "str option"
  stop_fault :: "str option"

definition SW_SHOWMINIMIZED :: nat where
  "SW_SHOWMINIMIZED = 2"

definition SW_RESTORE :: nat where
  "SW_RESTORE = 9"

text \<open>Everything the program does to the outside, in the order it does it.\<close>

datatype event =
    System str
  | PrintTable "str list list"
  | Getch
  | EnumWindows
  | IsWindowVisible nat
  | GetWindowText nat
  | GetWindowPlacement nat
  | ShowWindow nat nat
  | SetForegroundWindow nat
  | Print str

fun printed :: "event \<Rightarrow> str list" where
  "printed (Print s) = [s]"
| "printed _ = []"

fun visibility_query :: "event \<Rightarrow> nat list" where
  "visibility_query (IsWindowVisible h) = [h]"
| "visibility_query _ = []"

fun title_query :: "event \<Rightarrow> nat list" where
  "title_query (GetWindowText h) = [h]"
| "title_query _ = []"

fun placement_query :: "event \<Rightarrow> nat list" where
  "placement_query (GetWindowPlacement h) = [h]"
| "placement_query _ = []"

fun transition :: "event \<Rightarrow> event list" where
  "transition (ShowWindow h c) = [ShowWindow h c]"
| "transition (SetForegroundWindow h) = [SetForegroundWindow h]"
| "transition _ = []"

fun enumeration :: "event \<Rightarrow> event list" where
  "enumeration EnumWindows = [EnumWindows]"
| "enumeration _ = []"

text \<open>The lines printed, the windows asked for their visibility, title and placement, the
  restore and foreground requests, and the enumeration calls of a run.\<close>

definition printed_lines :: "event list \<Rightarrow> str list" where
  "printed_lines tr = concat (map printed tr)"

definition inspected :: "event list \<Rightarrow> nat list" where
  "inspected tr = concat (map visibility_query tr)"

definition titles_read :: "event list \<Rightarrow> nat list" where
  "titles_read tr = concat (map title_query tr)"

definition selected :: "event list \<Rightarrow> nat list" where
  "selected tr = concat (map placement_query tr)"

definition transitions :: "event list \<Rightarrow> event list" where
  "transitions tr = concat (map transition tr)"

definition enumerations :: "event list \<Rightarrow> event list" where
  "enumerations tr = concat (map enumeration tr)"

section \<open>The window activator\<close>

definition show_window :: "window \<Rightarrow> nat \<Rightarrow> event list" where
  "show_window w cmd = [ShowWindow (hwnd w) cmd]"

definition set_foreground_window :: "window \<Rightarrow> event list \<times> str option" where
  "set_foreground_window w = ([SetForegroundWindow (hwnd w)], foreground_fault w)"

text \<open>
  The callback of \<open>activate_app\<close>, for one window: the events, the new value of the
  enclosing \<open>found\<close>, and the value returned to \<open>EnumWindows\<close> (\<open>True\<close> to continue).
  The \<open>try\<close> block sends the restore request to a minimized window, then the foreground
  request, and sets \<open>found\<close> when that request has not raised; the \<open>except\<close> clause prints the
  exception.
\<close>

definition enum_callback :: "(nat \<Rightarrow> str) \<Rightarrow> str \<Rightarrow> window \<Rightarrow> bool
    \<Rightarrow> event list \<times> bool \<times> bool" where
  "enum_callback U target w found =
     (if visible w then
        (let title = upper U (title w) in
         if str_in (upper U target) title then
           (let is_minimized = (show_cmd w = SW_SHOWMINIMIZED);
                ev1 = (if is_minimized then show_window w SW_RESTORE else []);
                (ev2, raised) = set_foreground_window w;
                found' = (case raised of None \<Rightarrow> True | Some e \<Rightarrow> found);
                ev3 = (case raised of None \<Rightarrow> []
                       | Some e \<Rightarrow> [Print (ascii ''Error activating window: '' @ e)])
            in ([IsWindowVisible (hwnd w), GetWindowText (hwnd w),
                 Print (ascii ''Activating window: '' @ title), GetWindowPlacement (hwnd w)]
                @ ev1 @ ev2 @ ev3, found', False))
         else ([IsWindowVisible (hwnd w), GetWindowText (hwnd w)], found, True))
      else ([IsWindowVisible (hwnd w)], found, True))"

text \<open>
  \<open>EnumWindows(callback, None)\<close>: the callback runs on each window in turn until it returns
  \<open>False\<close>. The third component of \<open>enum_pass\<close> tells whether the pass went through all
  windows.
\<close>

fun enum_pass :: "(window \<Rightarrow> 's \<Rightarrow> event list \<times> 's \<times> bool) \<Rightarrow> window list \<Rightarrow> 's
    \<Rightarrow> event list \<times> 's \<times> bool" where
  "enum_pass cb [] s = ([], s, True)"
| "enum_pass cb (w # ws) s =
     (case cb w s of (ev, s', continue) \<Rightarrow>
        if continue then
          (case enum_pass cb ws s' of (ev', s'', completed) \<Rightarrow> (ev @ ev', s'', completed))
        else (ev, s', False))"

definition enum_windows :: "(window \<Rightarrow> 's \<Rightarrow> event list \<times> 's \<times> bool) \<Rightarrow> platform \<Rightarrow> 's
    \<Rightarrow> event list \<times> 's \<times> str option" where
  "enum_windows cb P s =
     (case enum_pass cb (windows P) s of (ev, s', completed) \<Rightarrow>
        (EnumWindows # ev, s', if completed then enum_fault P else stop_fault P))"

definition not_found_message :: "str \<Rightarrow> str" where
  "not_found_message target = ascii ''Window '' @ [34] @ target @ [34] @ ascii '' not found.''"

definition activate_app :: "(nat \<Rightarrow> str) \<Rightarrow> platform \<Rightarrow> str \<Rightarrow> event list" where
  "activate_app U P target =
     (if target = [] then []
      else
        (case enum_windows (enum_callback U target) P False of (ev, found, raised) \<Rightarrow>
           ev
           @ (case raised of None \<Rightarrow> []
              | Some e \<Rightarrow> [Print (ascii ''An error occurred while checking windows: '' @ e)])
           @ (if \<not> found \<and> target \<noteq> [] then [Print (not_found_message target)] else [])))"

section \<open>The binding registry\<close>

text \<open>
  A \<open>dict[str, str]\<close> is the list of its items in insertion order, with keys that are
  pairwise distinct. \<open>d[k] = v\<close> replaces the value of a key already there, in place, and
  appends a new key at the end.
\<close>

type_synonym bindings = "(str \<times> str) list"

fun dict_setitem :: "('k \<times> 'v) list \<Rightarrow> 'k \<Rightarrow> 'v \<Rightarrow> ('k \<times> 'v) list" where
  "dict_setitem [] k v = [(k, v)]"
| "dict_setitem ((k', v') # d) k v =
     (if k' = k then (k', v) # d else (k', v') # dict_setitem d k v)"

definition KEY_BINDINGS :: bindings where
  "KEY_BINDINGS =
     [(ascii ''A'', []), (ascii ''B'', []), (ascii ''C'', []), (ascii ''D'', []),
      (ascii ''E'', ascii ''Excel''), (ascii ''F'', []), (ascii ''G'', []), (ascii ''H'', []),
      (ascii ''I'', ascii ''Notepad++''), (ascii ''J'', []), (ascii ''K'', []),
      (ascii ''L'', []), (ascii ''M'', ascii ''Outlook''),
      (ascii ''N'', ascii ''Microsoft Teams''), (ascii ''O'', []),
      (ascii ''P'', ascii ''PDF-XChange Editor''), (ascii ''Q'', []), (ascii ''R'', []),
      (ascii ''S'', ascii ''Edge''), (ascii ''T'', ascii ''Total Commander''),
      (ascii ''U'', []), (ascii ''V'', ascii ''Visual Studio Code''),
      (ascii ''W'', ascii ''Word''), (ascii ''X'', []), (ascii ''Y'', ascii ''OneNote''),
      (ascii ''Z'', [])]"

text \<open>
  The dictionary comprehension of \<open>clean_key_bindings\<close>: the items are visited in order
  and each one that passes the test is stored into the dictionary built so far.
\<close>

fun comprehension :: "bindings \<Rightarrow> bindings \<Rightarrow> bindings" where
  "comprehension [] result = result"
| "comprehension ((key, val) # items) result =
     comprehension items
       (if strip key \<noteq> [] \<and> strip val \<noteq> [] then dict_setitem result key val else result)"

definition clean_key_bindings :: "bindings \<Rightarrow> bindings" where
  "clean_key_bindings bindings = comprehension bindings []"

section \<open>The display table\<close>

datatype py_error = IndexError | UnicodeDecodeError

text \<open>\<open>xs[i]\<close> for an index that is not negative.\<close>

definition getitem :: "'a list \<Rightarrow> nat \<Rightarrow> py_error + 'a" where
  "getitem xs i = (if i < length xs then Inr (xs ! i) else Inl IndexError)"

record texttable =
  cols_align :: "str list"
  cols_valign :: "str list"
  table_rows :: "str list list"

text \<open>One pass of the loop body of \<open>create_table\<close>: the row for index \<open>i\<close>.\<close>

definition table_row :: "bindings \<Rightarrow> nat \<Rightarrow> nat \<Rightarrow> nat \<Rightarrow> py_error + str list" where
  "table_row data_list row_count row_count_new i =
     (case getitem data_list i of
        Inl e \<Rightarrow> Inl e
      | Inr (col_a, col_b) \<Rightarrow>
          (let second_column_index = i + row_count_new in
           if second_column_index < row_count then
             (case getitem data_list second_column_index of
                Inl e \<Rightarrow> Inl e
              | Inr (col_c, col_d) \<Rightarrow> Inr [col_a, col_b, col_c, col_d])
           else Inr [col_a, col_b, [], []]))"

fun fill_cells :: "bindings \<Rightarrow> nat \<Rightarrow> nat \<Rightarrow> nat list \<Rightarrow> str list list
    \<Rightarrow> py_error + str list list" where
  "fill_cells data_list row_count row_count_new [] rows = Inr rows"
| "fill_cells data_list row_count row_count_new (i # indices) rows =
     (case table_row data_list row_count row_count_new i of
        Inl e \<Rightarrow> Inl e
      | Inr row \<Rightarrow> fill_cells data_list row_count row_count_new indices (rows @ [row]))"

definition table_head :: "str list" where
  "table_head = map ascii [''Key'', ''Application'', ''Key'', ''Application'']"

definition align_left :: "str list" where
  "align_left = map ascii [''l'', ''l'', ''l'', ''l'']"

definition valign_middle :: "str list" where
  "valign_middle = map ascii [''m'', ''m'', ''m'', ''m'']"

text \<open>
  \<open>create_table\<close>, with the bindings it reads as a parameter. \<open>int(row_count / 2)\<close> is the
  integer quotient (the float division is exact for every length a list can have).
\<close>

definition create_table :: "bindings \<Rightarrow> py_error + texttable" where
  "create_table bindings =
     (let data_list = clean_key_bindings bindings;
          row_count = length data_list;
          row_count_new = row_count div 2 + (if row_count mod 2 \<noteq> 0 then 1 else 0)
      in case fill_cells data_list row_count row_count_new [0..<row_count_new] [] of
           Inl e \<Rightarrow> Inl e
         | Inr rows \<Rightarrow>
             Inr \<lparr>cols_align = align_left, cols_valign = valign_middle,
                  table_rows = table_head # rows\<rparr>)"

section \<open>The interaction loop\<close>

text \<open>
  \<open>msvcrt.getch()\<close> returns one byte; \<open>decode()\<close> reads it as UTF-8, which a byte of 128
  or more alone is not.
\<close>

definition decode :: "char \<Rightarrow> py_error + str" where
  "decode b = (if (of_char b :: nat) < 128 then Inr [of_char b] else Inl UnicodeDecodeError)"

text \<open>Lines 187 and 188 of the loop: the lookup of the key and the call it leads to.\<close>

definition dispatch :: "(nat \<Rightarrow> str) \<Rightarrow> bindings \<Rightarrow> platform \<Rightarrow> str \<Rightarrow> event list" where
  "dispatch U bindings P key_input =
     (case map_of bindings key_input of
        None \<Rightarrow> []
      | Some target \<Rightarrow> activate_app U P target)"

text \<open>
  How a run of the loop stands at the end of the keys typed so far: still waiting for a
  key, or terminated, either by \<open>break\<close> or by an exception that nothing catches.
\<close>

datatype exit_by = Break | Exception py_error

datatype loop_end = AwaitingKey | Terminated exit_by

text \<open>
  \<open>start_loop\<close> on the bytes the keyboard delivers, each with the state of the window system
  at that moment. The bindings (the global \<open>KEY_BINDINGS\<close>) and the table (\<open>self.table\<close>)
  are parameters.
\<close>

definition render :: "texttable \<Rightarrow> event list" where
  "render table = [System (ascii ''cls''), PrintTable (table_rows table), Getch]"

fun start_loop :: "(nat \<Rightarrow> str) \<Rightarrow> bindings \<Rightarrow> texttable \<Rightarrow> (char \<times> platform) list
    \<Rightarrow> event list \<times> loop_end" where
  "start_loop U bindings table [] = (render table, AwaitingKey)"
| "start_loop U bindings table ((b, P) # keys) =
     (case decode b of
        Inl e \<Rightarrow> (render table, Terminated (Exception e))
      | Inr s \<Rightarrow>
          (let key_input = capitalize s in
           if \<not> isalpha key_input then (render table, Terminated Break)
           else
             (case start_loop U bindings table keys of (ev, r) \<Rightarrow>
                (render table @ dispatch U bindings P key_input @ ev, r))))"

text \<open>The constructor of \<open>AppSwitcher\<close>.\<close>

definition app_switcher :: "(nat \<Rightarrow> str) \<Rightarrow> bindings \<Rightarrow> (char \<times> platform) list
    \<Rightarrow> event list \<times> loop_end" where
  "app_switcher U bindings keys =
     (case create_table bindings of
        Inl e \<Rightarrow> ([System (ascii ''title Python App Switcher'')], Terminated (Exception e))
      | Inr table \<Rightarrow>
          (case start_loop U bindings table keys of (ev, r) \<Rightarrow>
             (System (ascii ''title Python App Switcher'') # ev, r)))"

section \<open>Notions of the specification\<close>

text \<open>
  Two characters are the same up to case when they are equal or one is the upper-case form
  of the other.
\<close>

definition equal_ignoring_case :: "(nat \<Rightarrow> str) \<Rightarrow> nat \<Rightarrow> nat \<Rightarrow> bool" where
  "equal_ignoring_case U c d = (c = d \<or> upper_char U c = [d] \<or> upper_char U d = [c])"

text \<open>A title contains a fragment case-insensitively when some block of the title is the
  fragment up to the case of its letters.\<close>

definition title_contains_ci :: "(nat \<Rightarrow> str) \<Rightarrow> str \<Rightarrow> str \<Rightarrow> bool" where
  "title_contains_ci U fragment t =
     (\<exists>ps block ss. t = ps @ block @ ss \<and> list_all2 (equal_ignoring_case U) fragment block)"

text \<open>The same, computed: the fragment is found, up to case, at the head of the title or
  further on.\<close>

fun ci_prefix :: "(nat \<Rightarrow> str) \<Rightarrow> str \<Rightarrow> str \<Rightarrow> bool" where
  "ci_prefix U [] t = True"
| "ci_prefix U (c # cs) [] = False"
| "ci_prefix U (c # cs) (d # ds) = (equal_ignoring_case U c d \<and> ci_prefix U cs ds)"

fun ci_in :: "(nat \<Rightarrow> str) \<Rightarrow> str \<Rightarrow> str \<Rightarrow> bool" where
  "ci_in U fragment [] = (fragment = [])"
| "ci_in U fragment (d # ds) = (ci_prefix U fragment (d # ds) \<or> ci_in U fragment ds)"

text \<open>The test of the program: the title in upper case contains the fragment in upper
  case.\<close>

definition upper_contains :: "(nat \<Rightarrow> str) \<Rightarrow> str \<Rightarrow> str \<Rightarrow> bool" where
  "upper_contains U fragment t = sublist (upper U fragment) (upper U t)"

text \<open>The windows a fragment can select.\<close>

definition matches :: "(nat \<Rightarrow> str) \<Rightarrow> str \<Rightarrow> window \<Rightarrow> bool" where
  "matches U fragment w = (visible w \<and> upper_contains U fragment (title w))"

definition is_ascii :: "str \<Rightarrow> bool" where
  "is_ascii s = list_all (\<lambda>c. c < 128) s"

text \<open>What the enumeration asks of a window it passes over.\<close>

definition inspection :: "window \<Rightarrow> event list" where
  "inspection w =
     (if visible w then [IsWindowVisible (hwnd w), GetWindowText (hwnd w)]
      else [IsWindowVisible (hwnd w)])"

definition minimized :: "window \<Rightarrow> bool" where
  "minimized w = (show_cmd w = SW_SHOWMINIMIZED)"

text \<open>A string is blank when it has nothing but white space.\<close>

definition blank :: "str \<Rightarrow> bool" where
  "blank s = list_all is_space s"

text \<open>The requests a selected window receives.\<close>

definition requests :: "window \<Rightarrow> event list" where
  "requests w =
     (if minimized w then [ShowWindow (hwnd w) SW_RESTORE] else [])
     @ [SetForegroundWindow (hwnd w)]"

text \<open>
  The row the layout puts at index \<open>i\<close> when the left column holds \<open>m\<close> entries, and the
  entries a list of rows shows in its left and in its right pair of columns.
\<close>

definition row_at :: "bindings \<Rightarrow> nat \<Rightarrow> nat \<Rightarrow> str list" where
  "row_at d m i =
     [fst (d ! i), snd (d ! i),
      if i + m < length d then fst (d ! (i + m)) else [],
      if i + m < length d then snd (d ! (i + m)) else []]"

definition left_columns :: "str list list \<Rightarrow> (str \<times> str) list" where
  "left_columns rows = map (\<lambda>r. (r ! 0, r ! 1)) rows"

definition right_columns :: "str list list \<Rightarrow> (str \<times> str) list" where
  "right_columns rows = map (\<lambda>r. (r ! 2, r ! 3)) rows"

text \<open>The byte of a letter key in upper case.\<close>

definition upper_byte :: "char \<Rightarrow> char" where
  "upper_byte b = char_of (ascii_upper (of_char b))"

section \<open>Example inputs\<close>

text \<open>
  Windows and states of the window system on which the theorems below are run, and the
  entry of the upper-case table of Unicode they need: the upper-case form of the dotless i,
  U+0131, is the letter I.
\<close>

definition dotless_upper :: "nat \<Rightarrow> str" where
  "dotless_upper c = (if c = 0x131 then [0x49] else [c])"

definition hidden_notepad :: window where
  "hidden_notepad = \<lparr>hwnd = 1, visible = False, title = ascii ''Notepad++ Hidden'',
     show_cmd = 1, foreground_fault = None\<rparr>"

definition untitled_notepad :: window where
  "untitled_notepad = \<lparr>hwnd = 2, visible = True, title = ascii ''Untitled - Notepad++'',
     show_cmd = 2, foreground_fault = None\<rparr>"

definition readme_notepad :: window where
  "readme_notepad = \<lparr>hwnd = 3, visible = True, title = ascii ''readme.txt - Notepad++'',
     show_cmd = 1, foreground_fault = None\<rparr>"

definition desktop :: platform where
  "desktop = \<lparr>windows = [hidden_notepad, untitled_notepad, readme_notepad],
     enum_fault = None, stop_fault = None\<rparr>"

definition guarded_notepad :: window where
  "guarded_notepad = \<lparr>hwnd = 5, visible = True, title = ascii ''Notepad'', show_cmd = 1,
     foreground_fault = Some (ascii ''Access is denied.'')\<rparr>"

definition guarded_desktop :: platform where
  "guarded_desktop = \<lparr>windows = [guarded_notepad], enum_fault = None, stop_fault = None\<rparr>"

definition kilavuz_window :: window where
  "kilavuz_window = \<lparr>hwnd = 7, visible = True,
     title = ascii ''K'' @ [0x131] @ ascii ''lavuz.txt - Notepad'', show_cmd = 1,
     foreground_fault = None\<rparr>"

definition kilavuz_desktop :: platform where
  "kilavuz_desktop = \<lparr>windows = [kilavuz_window], enum_fault = None, stop_fault = None\<rparr>"

definition raw_example :: bindings where
  "raw_example =
     [(ascii ''A'', []), (ascii ''B'', ascii ''X''), (ascii '' '', ascii ''Y''),
      (ascii ''C'', ascii ''  ''), (ascii ''d'', ascii '' Word ''),
      (ascii ''E'', ascii ''Excel'')]"

definition plain_table :: texttable where
  "plain_table = \<lparr>cols_align = [], cols_valign = [], table_rows = [table_head]\<rparr>"

definition excel_window :: window where
  "excel_window = \<lparr>hwnd = 6, visible = True, title = ascii ''Book1 - Excel'', show_cmd = 1,
     foreground_fault = None\<rparr>"

definition office :: platform where
  "office = \<lparr>windows = [excel_window], enum_fault = None, stop_fault = None\<rparr>"

definition blank_fragment_example :: bindings where
  "blank_fragment_example =
     [(ascii ''A'', []), (ascii ''E'', ascii ''Excel''), (ascii ''N'', []),
      (ascii '' '', ascii ''Excel'')]"

section \<open>Containment\<close>

lemma str_in_sublist: "str_in sub s = sublist sub s"
  by (induction s) (auto simp: sublist_Cons_right)

lemma upper_is_ascii: "is_ascii s \<Longrightarrow> upper U s = map ascii_upper s"
  by (induction s) (simp_all add: upper_def upper_char_def is_ascii_def)

lemma equal_ignoring_case_ascii:
  assumes "c < 128" and "d < 128"
  shows "equal_ignoring_case U c d \<longleftrightarrow> ascii_upper c = ascii_upper d"
  using assms
  unfolding equal_ignoring_case_def upper_char_def ascii_upper_def is_ascii_lower_def
  by (auto; arith)

lemma list_all2_ascii:
  "is_ascii xs \<Longrightarrow> is_ascii ys \<Longrightarrow>
   list_all2 (equal_ignoring_case U) xs ys \<longleftrightarrow> map ascii_upper xs = map ascii_upper ys"
proof (induction xs arbitrary: ys)
  case Nil
  then show ?case by auto
next
  case (Cons x xs)
  then show ?case
    by (cases ys) (auto simp: is_ascii_def equal_ignoring_case_ascii)
qed

lemma map_eq_block:
  assumes "map f t = ps' @ xs @ ss'"
  shows "\<exists>ps block ss. t = ps @ block @ ss \<and> map f block = xs"
proof -
  let ?b = "take (length xs) (drop (length ps') t)"
  have "map f ?b = take (length xs) (drop (length ps') (map f t))"
    by (simp add: take_map drop_map)
  also have "\<dots> = take (length xs) (drop (length ps') (ps' @ xs @ ss'))"
    by (simp only: assms)
  also have "\<dots> = xs" by simp
  finally have "map f ?b = xs" .
  moreover have "t = take (length ps') t @ ?b @ drop (length xs) (drop (length ps') t)"
    by (simp only: append_take_drop_id)
  ultimately show ?thesis by blast
qed

lemma ascii_contains_ci:
  assumes f: "is_ascii fragment" and t: "is_ascii t"
  shows "upper_contains U fragment t = title_contains_ci U fragment t"
proof
  assume "upper_contains U fragment t"
  then obtain ps' ss' where "map ascii_upper t = ps' @ map ascii_upper fragment @ ss'"
    unfolding upper_contains_def upper_is_ascii [OF f] upper_is_ascii [OF t] sublist_def
    by blast
  then obtain ps block ss where s: "t = ps @ block @ ss"
    and m: "map ascii_upper block = map ascii_upper fragment"
    using map_eq_block [of ascii_upper t ps' "map ascii_upper fragment" ss'] by blast
  from t s have "is_ascii block" by (simp add: is_ascii_def)
  with m f have "list_all2 (equal_ignoring_case U) fragment block"
    by (simp add: list_all2_ascii)
  with s show "title_contains_ci U fragment t"
    unfolding title_contains_ci_def by blast
next
  assume "title_contains_ci U fragment t"
  then obtain ps block ss where s: "t = ps @ block @ ss"
    and b: "list_all2 (equal_ignoring_case U) fragment block"
    by (auto simp: title_contains_ci_def)
  from t s have "is_ascii block" by (simp add: is_ascii_def)
  with b f have "map ascii_upper fragment = map ascii_upper block"
    by (simp add: list_all2_ascii)
  with s have "map ascii_upper t
      = map ascii_upper ps @ map ascii_upper fragment @ map ascii_upper ss"
    by simp
  then show "upper_contains U fragment t"
    unfolding upper_contains_def upper_is_ascii [OF f] upper_is_ascii [OF t] sublist_def
    by blast
qed

lemma ci_prefix_iff:
  "ci_prefix U fragment t \<longleftrightarrow>
     (\<exists>block ss. t = block @ ss \<and> list_all2 (equal_ignoring_case U) fragment block)"
proof (induction U fragment t rule: ci_prefix.induct)
  case (1 U t)
  then show ?case by simp
next
  case (2 U c cs)
  then show ?case by simp
next
  case (3 U c cs d ds)
  show ?case
  proof
    assume "ci_prefix U (c # cs) (d # ds)"
    with 3 obtain block ss where "equal_ignoring_case U c d" and "ds = block @ ss"
      and "list_all2 (equal_ignoring_case U) cs block" by auto
    then have "d # ds = (d # block) @ ss
        \<and> list_all2 (equal_ignoring_case U) (c # cs) (d # block)" by simp
    then show "\<exists>block ss. d # ds = block @ ss
        \<and> list_all2 (equal_ignoring_case U) (c # cs) block" by blast
  next
    assume "\<exists>block ss. d # ds = block @ ss
        \<and> list_all2 (equal_ignoring_case U) (c # cs) block"
    then obtain block ss where s: "d # ds = block @ ss"
      and l: "list_all2 (equal_ignoring_case U) (c # cs) block" by blast
    from l obtain b bs where block: "block = b # bs" and "equal_ignoring_case U c b"
      and "list_all2 (equal_ignoring_case U) cs bs"
      by (auto simp: list_all2_Cons1)
    with s 3 show "ci_prefix U (c # cs) (d # ds)" by auto
  qed
qed

lemma ci_prefix_Nil: "ci_prefix U fragment [] = (fragment = [])"
  by (cases fragment) simp_all

lemma ci_in_iff: "ci_in U fragment t \<longleftrightarrow> (\<exists>ps r. t = ps @ r \<and> ci_prefix U fragment r)"
proof (induction t)
  case Nil
  then show ?case by (simp add: ci_prefix_Nil)
next
  case (Cons d ds)
  show ?case
  proof
    assume "ci_in U fragment (d # ds)"
    then consider "ci_prefix U fragment (d # ds)" | "ci_in U fragment ds" by auto
    then show "\<exists>ps r. d # ds = ps @ r \<and> ci_prefix U fragment r"
    proof cases
      case 1
      then have "d # ds = [] @ (d # ds) \<and> ci_prefix U fragment (d # ds)" by simp
      then show ?thesis by blast
    next
      case 2
      with Cons obtain ps r where "ds = ps @ r" and "ci_prefix U fragment r" by blast
      then have "d # ds = (d # ps) @ r \<and> ci_prefix U fragment r" by simp
      then show ?thesis by blast
    qed
  next
    assume "\<exists>ps r. d # ds = ps @ r \<and> ci_prefix U fragment r"
    then obtain ps r where s: "d # ds = ps @ r" and p: "ci_prefix U fragment r" by blast
    show "ci_in U fragment (d # ds)"
    proof (cases ps)
      case Nil
      with s have "r = d # ds" by simp
      with p show ?thesis by simp
    next
      case (Cons a ps')
      with s have "ds = ps' @ r" by simp
      with p Cons.IH show ?thesis by auto
    qed
  qed
qed

lemma title_contains_ci_code [code]: "title_contains_ci U fragment t = ci_in U fragment t"
  unfolding ci_in_iff ci_prefix_iff title_contains_ci_def by auto

section \<open>One enumeration pass\<close>

lemma enum_callback_skip:
  "\<not> matches U target w \<Longrightarrow> enum_callback U target w found = (inspection w, found, True)"
  by (simp add: enum_callback_def matches_def upper_contains_def str_in_sublist
      inspection_def Let_def)

lemma enum_callback_match:
  "matches U target w \<Longrightarrow> enum_callback U target w found =
     ([IsWindowVisible (hwnd w), GetWindowText (hwnd w),
       Print (ascii ''Activating window: '' @ upper U (title w)), GetWindowPlacement (hwnd w)]
      @ requests w
      @ (case foreground_fault w of None \<Rightarrow> []
         | Some e \<Rightarrow> [Print (ascii ''Error activating window: '' @ e)]),
      foreground_fault w = None \<or> found, False)"
  by (auto simp: enum_callback_def matches_def upper_contains_def str_in_sublist Let_def
      requests_def minimized_def show_window_def set_foreground_window_def
      split: option.splits)

lemma enum_pass_skip:
  "\<forall>u\<in>set before. \<not> matches U target u \<Longrightarrow>
   enum_pass (enum_callback U target) (before @ rest) found =
     (case enum_pass (enum_callback U target) rest found of
        (ev, f, c) \<Rightarrow> (concat (map inspection before) @ ev, f, c))"
  by (induction before) (auto simp: enum_callback_skip split: prod.splits)

lemma enum_pass_match:
  "matches U target w \<Longrightarrow>
   enum_pass (enum_callback U target) (w # later) found = enum_callback U target w found"
  by (simp add: enum_callback_match)

lemma activate_app_match:
  assumes "target \<noteq> []" and "windows P = before @ w # later" and "matches U target w"
    and "\<forall>u\<in>set before. \<not> matches U target u"
  shows "activate_app U P target =
     EnumWindows # concat (map inspection before)
     @ [IsWindowVisible (hwnd w), GetWindowText (hwnd w),
        Print (ascii ''Activating window: '' @ upper U (title w)), GetWindowPlacement (hwnd w)]
     @ requests w
     @ (case foreground_fault w of None \<Rightarrow> []
        | Some e \<Rightarrow> [Print (ascii ''Error activating window: '' @ e)])
     @ (case stop_fault P of None \<Rightarrow> []
        | Some e \<Rightarrow> [Print (ascii ''An error occurred while checking windows: '' @ e)])
     @ (if foreground_fault w = None then [] else [Print (not_found_message target)])"
  using assms
  by (simp add: activate_app_def enum_windows_def enum_pass_skip enum_pass_match
      enum_callback_match)

lemma activate_app_no_match:
  assumes "target \<noteq> []" and "\<forall>u\<in>set (windows P). \<not> matches U target u"
  shows "activate_app U P target =
     EnumWindows # concat (map inspection (windows P))
     @ (case enum_fault P of None \<Rightarrow> []
        | Some e \<Rightarrow> [Print (ascii ''An error occurred while checking windows: '' @ e)])
     @ [Print (not_found_message target)]"
  using assms enum_pass_skip [of "windows P" U target "[]" False]
  by (simp add: activate_app_def enum_windows_def)

section \<open>Observations of a run\<close>

lemma projections_Nil [simp]:
  "printed_lines [] = []" "inspected [] = []" "titles_read [] = []" "selected [] = []"
  "transitions [] = []" "enumerations [] = []"
  by (simp_all add: printed_lines_def inspected_def titles_read_def selected_def
      transitions_def enumerations_def)

lemma projections_Cons [simp]:
  "printed_lines (e # tr) = printed e @ printed_lines tr"
  "inspected (e # tr) = visibility_query e @ inspected tr"
  "titles_read (e # tr) = title_query e @ titles_read tr"
  "selected (e # tr) = placement_query e @ selected tr"
  "transitions (e # tr) = transition e @ transitions tr"
  "enumerations (e # tr) = enumeration e @ enumerations tr"
  by (simp_all add: printed_lines_def inspected_def titles_read_def selected_def
      transitions_def enumerations_def)

lemma projections_append [simp]:
  "printed_lines (tr @ tr') = printed_lines tr @ printed_lines tr'"
  "inspected (tr @ tr') = inspected tr @ inspected tr'"
  "titles_read (tr @ tr') = titles_read tr @ titles_read tr'"
  "selected (tr @ tr') = selected tr @ selected tr'"
  "transitions (tr @ tr') = transitions tr @ transitions tr'"
  "enumerations (tr @ tr') = enumerations tr @ enumerations tr'"
  by (simp_all add: printed_lines_def inspected_def titles_read_def selected_def
      transitions_def enumerations_def)

lemma projections_inspection [simp]:
  "printed_lines (concat (map inspection ws)) = []"
  "inspected (concat (map inspection ws)) = map hwnd ws"
  "titles_read (concat (map inspection ws)) = map hwnd (filter visible ws)"
  "selected (concat (map inspection ws)) = []"
  "transitions (concat (map inspection ws)) = []"
  "enumerations (concat (map inspection ws)) = []"
  by (induction ws) (simp_all add: inspection_def)

lemma projections_requests [simp]:
  "printed_lines (requests w) = []" "inspected (requests w) = []" "titles_read (requests w) = []"
  "selected (requests w) = []" "transitions (requests w) = requests w"
  "enumerations (requests w) = []"
  by (simp_all add: requests_def)

lemma projections_message [simp]:
  "printed_lines (case x of None \<Rightarrow> [] | Some e \<Rightarrow> [Print (f e)]) = (case x of None \<Rightarrow> [] | Some e \<Rightarrow> [f e])"
  "inspected (case x of None \<Rightarrow> [] | Some e \<Rightarrow> [Print (f e)]) = []"
  "titles_read (case x of None \<Rightarrow> [] | Some e \<Rightarrow> [Print (f e)]) = []"
  "selected (case x of None \<Rightarrow> [] | Some e \<Rightarrow> [Print (f e)]) = []"
  "transitions (case x of None \<Rightarrow> [] | Some e \<Rightarrow> [Print (f e)]) = []"
  "enumerations (case x of None \<Rightarrow> [] | Some e \<Rightarrow> [Print (f e)]) = []"
  by (simp_all split: option.splits)

section \<open>The empty fragment\<close>

text \<open>
  C5. For the empty fragment \<open>activate_app\<close> returns at once: its run has no event at all,
  so no call of \<open>EnumWindows\<close>, no request to any window and no printed line.
\<close>

theorem activate_app_empty_noop:
  "activate_app U P [] = []
   \<and> enumerations (activate_app U P []) = []
   \<and> transitions (activate_app U P []) = []
   \<and> printed_lines (activate_app U P []) = []"
  by (simp add: activate_app_def enumerations_def transitions_def printed_lines_def)

section \<open>Selection of the first match\<close>

text \<open>
  C1, as stated, fails. The program compares the title and the fragment after \<open>upper()\<close>, and
  two letters that differ by more than their case can have one upper-case form: the dotless
  i of a title and the i of a fragment both become I. The title of the window below does not
  contain the fragment \<open>kilavuz\<close> up to the case of its letters, and the window is selected.
\<close>

theorem dotless_title_selected:
  "visible kilavuz_window
   \<and> \<not> title_contains_ci dotless_upper (ascii ''kilavuz'') (title kilavuz_window)
   \<and> selected (activate_app dotless_upper kilavuz_desktop (ascii ''kilavuz'')) = [7]
   \<and> transitions (activate_app dotless_upper kilavuz_desktop (ascii ''kilavuz''))
       = [SetForegroundWindow 7]"
  by code_simp

text \<open>
  C1, amended. For a fragment that is not empty, let \<open>w\<close> be the first window of the
  enumeration that is visible and whose title in upper case contains the fragment in upper
  case (no window before it is both). Then \<open>activate_app\<close> selects \<open>w\<close> and no other window:
  \<open>w\<close> alone is asked for its placement and receives the requests. Windows that are not
  visible are passed over without their title being read, so they are never matched. The
  enumeration stops at \<open>w\<close>: the windows asked for their visibility are those up to \<open>w\<close>, and
  the run is the run on the enumeration cut after \<open>w\<close>. For an ASCII fragment and an ASCII
  title the test is containment up to the case of the letters.
\<close>

theorem activate_app_selects_first_match:
  assumes "target \<noteq> []" and "windows P = before @ w # later"
    and "visible w" and "upper_contains U target (title w)"
    and "\<forall>u\<in>set before. \<not> (visible u \<and> upper_contains U target (title u))"
  shows "selected (activate_app U P target) = [hwnd w]
     \<and> transitions (activate_app U P target) = requests w
     \<and> inspected (activate_app U P target) = map hwnd before @ [hwnd w]
     \<and> titles_read (activate_app U P target) = map hwnd (filter visible before) @ [hwnd w]
     \<and> hd (printed_lines (activate_app U P target))
         = ascii ''Activating window: '' @ upper U (title w)
     \<and> activate_app U P target = activate_app U (P\<lparr>windows := before @ [w]\<rparr>) target
     \<and> (is_ascii target \<and> is_ascii t \<longrightarrow>
          upper_contains U target t = title_contains_ci U target t)"
proof -
  have w: "matches U target w" and b: "\<forall>u\<in>set before. \<not> matches U target u"
    using assms by (simp_all add: matches_def)
  note run = activate_app_match [OF assms(1) assms(2) w b]
  have "windows (P\<lparr>windows := before @ [w]\<rparr>) = before @ w # []" by simp
  note cut = activate_app_match [OF assms(1) this w b]
  show ?thesis
    unfolding cut unfolding run using assms(3) by (simp add: ascii_contains_ci)
qed

theorem activate_app_selects_first_match_witness:
  "selected (activate_app dotless_upper desktop (ascii ''notepad++'')) = [2]
   \<and> inspected (activate_app dotless_upper desktop (ascii ''notepad++'')) = [1, 2]
   \<and> titles_read (activate_app dotless_upper desktop (ascii ''notepad++'')) = [2]
   \<and> hd (printed_lines (activate_app dotless_upper desktop (ascii ''notepad++'')))
       = ascii ''Activating window: UNTITLED - NOTEPAD++''
   \<and> title_contains_ci dotless_upper (ascii ''notepad++'') (title untitled_notepad)"
proof -
  have 1: "ascii ''notepad++'' \<noteq> []" by (simp add: ascii_def)
  have 2: "windows desktop = [hidden_notepad] @ untitled_notepad # [readme_notepad]"
    by (simp add: desktop_def)
  have 3: "visible untitled_notepad" by (simp add: untitled_notepad_def)
  have 4: "upper_contains dotless_upper (ascii ''notepad++'') (title untitled_notepad)"
    by code_simp
  have 5: "\<forall>u\<in>set [hidden_notepad].
      \<not> (visible u \<and> upper_contains dotless_upper (ascii ''notepad++'') (title u))"
    by (simp add: hidden_notepad_def)
  have 6: "upper dotless_upper (title untitled_notepad) = ascii ''UNTITLED - NOTEPAD++''"
    by code_simp
  have 7: "is_ascii (ascii ''notepad++'') \<and> is_ascii (title untitled_notepad)" by code_simp
  from activate_app_selects_first_match [OF 1 2 3 4 5, of "title untitled_notepad"] 4 7
  have "selected (activate_app dotless_upper desktop (ascii ''notepad++''))
         = [hwnd untitled_notepad]
     \<and> inspected (activate_app dotless_upper desktop (ascii ''notepad++''))
         = map hwnd [hidden_notepad] @ [hwnd untitled_notepad]
     \<and> titles_read (activate_app dotless_upper desktop (ascii ''notepad++''))
         = map hwnd (filter visible [hidden_notepad]) @ [hwnd untitled_notepad]
     \<and> hd (printed_lines (activate_app dotless_upper desktop (ascii ''notepad++'')))
         = ascii ''Activating window: '' @ upper dotless_upper (title untitled_notepad)
     \<and> title_contains_ci dotless_upper (ascii ''notepad++'') (title untitled_notepad)"
    by blast
  then show ?thesis
    by (simp add: 6) (simp add: hidden_notepad_def untitled_notepad_def ascii_def)
qed

section \<open>Restore and foreground requests\<close>

text \<open>
  C2. The window selected receives a restore request first if and only if its show-state is
  minimized, and then a foreground request, whether or not a restore was issued and whether
  or not the foreground request succeeds; each request is sent once, in that order, and no
  other request is sent.
\<close>

theorem activate_app_requests:
  assumes "target \<noteq> []" and "windows P = before @ w # later"
    and "visible w" and "upper_contains U target (title w)"
    and "\<forall>u\<in>set before. \<not> (visible u \<and> upper_contains U target (title u))"
  shows "transitions (activate_app U P target) =
     (if show_cmd w = SW_SHOWMINIMIZED then [ShowWindow (hwnd w) SW_RESTORE] else [])
     @ [SetForegroundWindow (hwnd w)]"
proof -
  have w: "matches U target w" and b: "\<forall>u\<in>set before. \<not> matches U target u"
    using assms by (simp_all add: matches_def)
  show ?thesis
    unfolding activate_app_match [OF assms(1) assms(2) w b]
    by (simp add: requests_def minimized_def)
qed

theorem activate_app_requests_witness:
  "transitions (activate_app dotless_upper desktop (ascii ''notepad++''))
     = [ShowWindow 2 SW_RESTORE, SetForegroundWindow 2]
   \<and> transitions (activate_app dotless_upper guarded_desktop (ascii ''notepad''))
     = [SetForegroundWindow 5]"
proof -
  have 1: "ascii ''notepad++'' \<noteq> []" by (simp add: ascii_def)
  have 2: "windows desktop = [hidden_notepad] @ untitled_notepad # [readme_notepad]"
    by (simp add: desktop_def)
  have 3: "visible untitled_notepad" by (simp add: untitled_notepad_def)
  have 4: "upper_contains dotless_upper (ascii ''notepad++'') (title untitled_notepad)"
    by code_simp
  have 5: "\<forall>u\<in>set [hidden_notepad].
      \<not> (visible u \<and> upper_contains dotless_upper (ascii ''notepad++'') (title u))"
    by (simp add: hidden_notepad_def)
  have a: "transitions (activate_app dotless_upper desktop (ascii ''notepad++''))
     = [ShowWindow 2 SW_RESTORE, SetForegroundWindow 2]"
    using activate_app_requests [OF 1 2 3 4 5]
    by (simp add: untitled_notepad_def SW_SHOWMINIMIZED_def)
  have 6: "ascii ''notepad'' \<noteq> []" by (simp add: ascii_def)
  have 7: "windows guarded_desktop = [] @ guarded_notepad # []"
    by (simp add: guarded_desktop_def)
  have 8: "visible guarded_notepad" by (simp add: guarded_notepad_def)
  have 9: "upper_contains dotless_upper (ascii ''notepad'') (title guarded_notepad)"
    by code_simp
  have 10: "\<forall>u\<in>set []. \<not> (visible u
      \<and> upper_contains dotless_upper (ascii ''notepad'') (title u))"
    by simp
  have b: "transitions (activate_app dotless_upper guarded_desktop (ascii ''notepad''))
     = [SetForegroundWindow 5]"
    using activate_app_requests [OF 6 7 8 9 10]
    by (simp add: guarded_notepad_def SW_SHOWMINIMIZED_def)
  from a b show ?thesis by simp
qed

section \<open>A failed activation\<close>

text \<open>
  C3. The exception of a failed foreground request is caught and its message printed, but
  \<open>found\<close> is then still \<open>False\<close>, so the line saying that the window was not found is printed
  as well: on a desktop whose only window matches and refuses the request, the run prints
  the activation line, the error line and the not-found line. The loop goes on to wait for
  the next key.
\<close>

theorem failed_activation_reported_not_found:
  "printed_lines (activate_app U guarded_desktop (ascii ''Notepad'')) =
     [ascii ''Activating window: NOTEPAD'',
      ascii ''Error activating window: Access is denied.'',
      not_found_message (ascii ''Notepad'')]
   \<and> snd (start_loop U [(ascii ''N'', ascii ''Notepad'')] plain_table
         [(CHR ''n'', guarded_desktop)])
       = AwaitingKey"
  by code_simp

text \<open>The same lines are printed for every selected window on which the request fails.\<close>

lemma failed_activation_lines:
  assumes "target \<noteq> []" and "windows P = before @ w # later" and "matches U target w"
    and "\<forall>u\<in>set before. \<not> matches U target u" and "foreground_fault w = Some e"
  shows "printed_lines (activate_app U P target) =
     [ascii ''Activating window: '' @ upper U (title w), ascii ''Error activating window: '' @ e]
     @ (case stop_fault P of None \<Rightarrow> []
        | Some x \<Rightarrow> [ascii ''An error occurred while checking windows: '' @ x])
     @ [not_found_message target]"
  unfolding activate_app_match [OF assms(1-4)] by (simp add: assms(5))

section \<open>No matching window\<close>

text \<open>
  C4, as stated, fails, for the reason C1 does: the only window of the desktop below has a
  title that does not contain the fragment \<open>kilavuz\<close> up to the case of its letters, and the
  run activates it and prints no not-found line.
\<close>

theorem dotless_title_found:
  "windows kilavuz_desktop = [kilavuz_window]
   \<and> \<not> title_contains_ci dotless_upper (ascii ''kilavuz'') (title kilavuz_window)
   \<and> printed_lines (activate_app dotless_upper kilavuz_desktop (ascii ''kilavuz''))
       = [ascii ''Activating window: KILAVUZ.TXT - NOTEPAD'']"
  by code_simp

text \<open>
  C4, amended. For a fragment that is not empty, when no window is both visible and has a
  title that in upper case contains the fragment in upper case, \<open>activate_app\<close> calls
  \<open>EnumWindows\<close> once, the pass visits every window, no window is selected or sent a request,
  and the not-found line for the fragment is printed (after the line for an exception of
  \<open>EnumWindows\<close> itself, if it raised one). For an ASCII fragment and an ASCII title the test
  is containment up to the case of the letters.
\<close>

theorem activate_app_not_found:
  assumes "target \<noteq> []"
    and "\<forall>w\<in>set (windows P). \<not> (visible w \<and> upper_contains U target (title w))"
  shows "enumerations (activate_app U P target) = [EnumWindows]
     \<and> inspected (activate_app U P target) = map hwnd (windows P)
     \<and> selected (activate_app U P target) = []
     \<and> transitions (activate_app U P target) = []
     \<and> printed_lines (activate_app U P target) =
         (case enum_fault P of None \<Rightarrow> []
          | Some e \<Rightarrow> [ascii ''An error occurred while checking windows: '' @ e])
         @ [not_found_message target]
     \<and> (is_ascii target \<and> is_ascii t \<longrightarrow>
          upper_contains U target t = title_contains_ci U target t)"
proof -
  have "\<forall>u\<in>set (windows P). \<not> matches U target u"
    using assms(2) by (simp add: matches_def)
  from activate_app_no_match [OF assms(1) this] show ?thesis
    by (simp add: ascii_contains_ci)
qed

theorem activate_app_not_found_witness:
  "enumerations (activate_app dotless_upper desktop (ascii ''excel'')) = [EnumWindows]
   \<and> inspected (activate_app dotless_upper desktop (ascii ''excel'')) = [1, 2, 3]
   \<and> selected (activate_app dotless_upper desktop (ascii ''excel'')) = []
   \<and> transitions (activate_app dotless_upper desktop (ascii ''excel'')) = []
   \<and> printed_lines (activate_app dotless_upper desktop (ascii ''excel''))
       = [not_found_message (ascii ''excel'')]
   \<and> \<not> title_contains_ci dotless_upper (ascii ''excel'') (title readme_notepad)"
proof -
  have 1: "ascii ''excel'' \<noteq> []" by (simp add: ascii_def)
  have 2: "\<forall>w\<in>set (windows desktop).
      \<not> (visible w \<and> upper_contains dotless_upper (ascii ''excel'') (title w))"
    by code_simp
  have 3: "is_ascii (ascii ''excel'') \<and> is_ascii (title readme_notepad)" by code_simp
  have 4: "\<not> upper_contains dotless_upper (ascii ''excel'') (title readme_notepad)"
    by code_simp
  have 5: "enum_fault desktop = None" by (simp add: desktop_def)
  have 6: "map hwnd (windows desktop) = [1, 2, 3]"
    by (simp add: desktop_def hidden_notepad_def untitled_notepad_def readme_notepad_def)
  note th = activate_app_not_found [OF 1 2, of "title readme_notepad", unfolded 5 6]
  from th 3 4 show ?thesis by auto
qed

section \<open>The filtered registry\<close>

lemma dict_setitem_new:
  "k \<notin> fst ` set d \<Longrightarrow> dict_setitem d k v = d @ [(k, v)]"
  by (induction d) auto

lemma comprehension_filter:
  "distinct (map fst items) \<Longrightarrow> fst ` set items \<inter> fst ` set result = {} \<Longrightarrow>
   comprehension items result =
     result @ filter (\<lambda>(key, val). strip key \<noteq> [] \<and> strip val \<noteq> []) items"
proof (induction items arbitrary: result)
  case Nil
  then show ?case by simp
next
  case (Cons item items)
  obtain key val where item: "item = (key, val)" by (cases item)
  from Cons.prems have d: "distinct (map fst items)" and k: "key \<notin> fst ` set items"
    and r: "key \<notin> fst ` set result" and i: "fst ` set items \<inter> fst ` set result = {}"
    by (auto simp: item)
  show ?case
  proof (cases "strip key \<noteq> [] \<and> strip val \<noteq> []")
    case True
    have "fst ` set items \<inter> fst ` set (result @ [(key, val)]) = {}"
      using i k by auto
    from Cons.IH [OF d this] True r show ?thesis
      by (simp add: item dict_setitem_new)
  next
    case False
    from Cons.IH [OF d i] False show ?thesis by (auto simp: item)
  qed
qed

lemma clean_key_bindings_filter:
  "distinct (map fst bindings) \<Longrightarrow>
   clean_key_bindings bindings =
     filter (\<lambda>(key, val). strip key \<noteq> [] \<and> strip val \<noteq> []) bindings"
  by (simp add: clean_key_bindings_def comprehension_filter)

lemma set_dict_setitem: "set (dict_setitem d k v) \<subseteq> insert (k, v) (set d)"
  by (induction d) (auto split: if_splits)

lemma set_comprehension: "set (comprehension items result) \<subseteq> set items \<union> set result"
proof (induction items arbitrary: result)
  case Nil
  then show ?case by simp
next
  case (Cons item items)
  obtain key val where item: "item = (key, val)" by (cases item)
  show ?case
    using Cons.IH [of "dict_setitem result key val"] Cons.IH [of result]
      set_dict_setitem [of result key val]
    by (auto simp: item)
qed

lemma strip_empty_iff: "strip s = [] \<longleftrightarrow> blank s"
proof (cases "dropWhile is_space s = []")
  case True
  then have "strip s = []" unfolding strip_def by (simp only: rev.simps dropWhile.simps)
  moreover from True have "blank s" by (simp add: blank_def dropWhile_eq_Nil_conv list_all_iff)
  ultimately show ?thesis by simp
next
  case False
  then have h: "\<not> is_space (hd (dropWhile is_space s))" by (rule hd_dropWhile)
  from False have m: "hd (dropWhile is_space s) \<in> set (dropWhile is_space s)" by simp
  then have "hd (dropWhile is_space s) \<in> set s" by (rule set_dropWhileD)
  with h have "\<not> blank s" by (auto simp: blank_def list_all_iff)
  moreover from h m have "strip s \<noteq> []"
    by (auto simp: strip_def dropWhile_eq_Nil_conv)
  ultimately show ?thesis by simp
qed

text \<open>
  C6. For every raw bindings dictionary, \<open>clean_key_bindings\<close> returns the entries whose key
  and fragment are both not empty after \<open>strip\<close>, each as it was, in the order of the source:
  it leaves out exactly the entries whose key or fragment is empty after trimming.
\<close>

theorem clean_key_bindings_filters:
  assumes "distinct (map fst bindings)"
  shows "clean_key_bindings bindings =
     filter (\<lambda>(key, fragment). strip key \<noteq> [] \<and> strip fragment \<noteq> []) bindings"
  using assms by (rule clean_key_bindings_filter)

theorem clean_key_bindings_filters_witness:
  "clean_key_bindings raw_example =
     [(ascii ''B'', ascii ''X''), (ascii ''d'', ascii '' Word ''), (ascii ''E'', ascii ''Excel'')]"
proof -
  have "distinct (map fst raw_example)" by (simp add: raw_example_def ascii_def)
  from clean_key_bindings_filters [OF this]
  have "clean_key_bindings raw_example =
     filter (\<lambda>(key, fragment). strip key \<noteq> [] \<and> strip fragment \<noteq> []) raw_example" .
  also have "\<dots> =
     [(ascii ''B'', ascii ''X''), (ascii ''d'', ascii '' Word ''), (ascii ''E'', ascii ''Excel'')]"
    by (simp add: raw_example_def strip_def is_space_def ascii_def)
  finally show ?thesis .
qed
section \<open>The layout of the table\<close>

lemma table_row_in_range:
  "i < length d \<Longrightarrow> table_row d (length d) m i = Inr (row_at d m i)"
  by (simp add: table_row_def getitem_def row_at_def Let_def split: prod.splits)

lemma fill_cells_in_range:
  "\<forall>i\<in>set indices. i < length d \<Longrightarrow>
   fill_cells d (length d) m indices rows = Inr (rows @ map (row_at d m) indices)"
  by (induction indices arbitrary: rows) (simp_all add: table_row_in_range)

lemma ceiling_half: "nat \<lceil>real n / 2\<rceil> = n div 2 + (if n mod 2 \<noteq> 0 then 1 else 0)"
proof (cases "even n")
  case True
  then obtain k where "n = 2 * k" by (elim evenE)
  then show ?thesis by simp
next
  case False
  then obtain k where n: "n = 2 * k + 1" by (elim oddE)
  have "\<lceil>real n / 2\<rceil> = int k + 1"
    by (rule ceiling_unique) (simp_all add: n field_simps)
  then show ?thesis by (simp add: n)
qed

lemma half_split:
  fixes m n :: nat
  assumes "m = n div 2 + (if n mod 2 \<noteq> 0 then 1 else 0)"
  shows "m \<le> n" and "m = (n - m) + n mod 2"
proof -
  show "m \<le> n"
  proof (cases "even n")
    case True
    then obtain k where "n = 2 * k" by (elim evenE)
    with assms show ?thesis by simp
  next
    case False
    then obtain k where "n = 2 * k + 1" by (elim oddE)
    with assms show ?thesis by simp
  qed
  show "m = (n - m) + n mod 2"
  proof (cases "even n")
    case True
    then obtain k where "n = 2 * k" by (elim evenE)
    with assms show ?thesis by simp
  next
    case False
    then obtain k where "n = 2 * k + 1" by (elim oddE)
    with assms show ?thesis by simp
  qed
qed

lemma left_columns_rows:
  "m \<le> length d \<Longrightarrow> left_columns (map (row_at d m) [0..<m]) = take m d"
  by (auto intro!: nth_equalityI simp: left_columns_def row_at_def)

lemma right_columns_rows:
  assumes "m = length d div 2 + (if length d mod 2 \<noteq> 0 then 1 else 0)"
  shows "right_columns (map (row_at d m) [0..<m]) = drop m d @ replicate (length d mod 2) ([], [])"
proof (rule nth_equalityI)
  show "length (right_columns (map (row_at d m) [0..<m]))
      = length (drop m d @ replicate (length d mod 2) ([], []))"
    using half_split(2) [OF assms] by (simp add: right_columns_def)
next
  note split = half_split(2) [OF assms]
  fix i assume "i < length (right_columns (map (row_at d m) [0..<m]))"
  then have i: "i < m" by (simp add: right_columns_def)
  show "right_columns (map (row_at d m) [0..<m]) ! i
      = (drop m d @ replicate (length d mod 2) ([], [])) ! i"
  proof (cases "i + m < length d")
    case True
    then have "i < length d - m" by arith
    with True i show ?thesis
      by (simp add: right_columns_def row_at_def nth_append add.commute)
  next
    case False
    then have "\<not> i < length d - m" by arith
    moreover from False i split have "i - (length d - m) < length d mod 2" by arith
    ultimately show ?thesis using False i
      by (simp add: right_columns_def row_at_def nth_append)
  qed
qed

text \<open>
  C9. For every raw bindings dictionary \<open>create_table\<close> returns a table and raises no
  \<open>IndexError\<close>. With \<open>n\<close> entries in the filtered registry, the table has the header and
  \<open>ceil(n/2)\<close> data rows of four cells; the left key and application columns hold the first
  \<open>ceil(n/2)\<close> entries, the right columns hold the remaining entries, followed, when \<open>n\<close> is
  odd, by one pair of empty strings. For an empty registry there is no data row, so the table
  is its header.
\<close>

theorem create_table_layout:
  "\<exists>rows. create_table bindings =
        Inr \<lparr>cols_align = align_left, cols_valign = valign_middle,
             table_rows = table_head # rows\<rparr>
     \<and> length rows = nat \<lceil>real (length (clean_key_bindings bindings)) / 2\<rceil>
     \<and> map length rows = replicate (length rows) 4
     \<and> left_columns rows = take (length rows) (clean_key_bindings bindings)
     \<and> right_columns rows = drop (length rows) (clean_key_bindings bindings)
         @ replicate (length (clean_key_bindings bindings) mod 2) ([], [])"
proof -
  define d where "d = clean_key_bindings bindings"
  define m where "m = length d div 2 + (if length d mod 2 \<noteq> 0 then 1 else 0)"
  have m: "m \<le> length d" by (rule half_split(1) [OF m_def])
  then have "\<forall>i\<in>set [0..<m]. i < length d" by simp
  then have fill: "fill_cells d (length d) m [0..<m] [] = Inr (map (row_at d m) [0..<m])"
    by (simp add: fill_cells_in_range)
  have run: "create_table bindings =
      Inr \<lparr>cols_align = align_left, cols_valign = valign_middle,
           table_rows = table_head # map (row_at d m) [0..<m]\<rparr>"
    unfolding create_table_def Let_def d_def [symmetric] m_def [symmetric] fill by simp
  have len: "length (map (row_at d m) [0..<m]) = m" by simp
  have "m = nat \<lceil>real (length d) / 2\<rceil>" by (simp add: m_def ceiling_half)
  moreover have "map length (map (row_at d m) [0..<m]) = replicate m 4"
    by (rule nth_equalityI) (simp_all add: row_at_def)
  moreover note left_columns_rows [OF m] right_columns_rows [OF m_def]
  ultimately show ?thesis
    unfolding d_def [symmetric] using run len by (intro exI [of _ "map (row_at d m) [0..<m]"]) simp
qed

theorem create_table_layout_witness:
  "create_table raw_example =
     Inr \<lparr>cols_align = align_left, cols_valign = valign_middle,
          table_rows = [table_head, map ascii [''B'', ''X'', ''E'', ''Excel''],
            [ascii ''d'', ascii '' Word '', [], []]]\<rparr>
   \<and> create_table [] =
     Inr \<lparr>cols_align = align_left, cols_valign = valign_middle,
          table_rows = [table_head]\<rparr>"
proof -
  have clean: "clean_key_bindings raw_example =
      [(ascii ''B'', ascii ''X''), (ascii ''d'', ascii '' Word ''), (ascii ''E'', ascii ''Excel'')]"
    by (simp add: clean_key_bindings_def raw_example_def strip_def is_space_def ascii_def)
  from create_table_layout [of raw_example] obtain rows where
    t: "create_table raw_example =
        Inr \<lparr>cols_align = align_left, cols_valign = valign_middle,
             table_rows = table_head # rows\<rparr>"
    and n: "length rows = 2" and c: "map length rows = replicate (length rows) 4"
    and l: "left_columns rows = take (length rows)
        [(ascii ''B'', ascii ''X''), (ascii ''d'', ascii '' Word ''), (ascii ''E'', ascii ''Excel'')]"
    and r: "right_columns rows = drop (length rows)
        [(ascii ''B'', ascii ''X''), (ascii ''d'', ascii '' Word ''), (ascii ''E'', ascii ''Excel'')]
         @ replicate (3 mod 2) ([], [])"
    unfolding clean by auto
  from n obtain r1 r2 where rows: "rows = [r1, r2]"
    by (auto simp: length_Suc_conv numeral_2_eq_2)
  from c obtain a1 b1 c1 d1 where r1: "r1 = [a1, b1, c1, d1]"
    by (auto simp: rows length_Suc_conv numeral_eq_Suc)
  from c obtain a2 b2 c2 d2 where r2: "r2 = [a2, b2, c2, d2]"
    by (auto simp: rows length_Suc_conv numeral_eq_Suc)
  from l r have "rows =
      [map ascii [''B'', ''X'', ''E'', ''Excel''], [ascii ''d'', ascii '' Word '', [], []]]"
    by (simp add: rows r1 r2 left_columns_def right_columns_def)
  with t have 1: "create_table raw_example =
     Inr \<lparr>cols_align = align_left, cols_valign = valign_middle,
          table_rows = [table_head, map ascii [''B'', ''X'', ''E'', ''Excel''],
            [ascii ''d'', ascii '' Word '', [], []]]\<rparr>"
    by simp
  have "clean_key_bindings [] = []" by (simp add: clean_key_bindings_def)
  with create_table_layout [of "[]"] have 2: "create_table [] =
     Inr \<lparr>cols_align = align_left, cols_valign = valign_middle,
          table_rows = [table_head]\<rparr>"
    by auto
  from 1 2 show ?thesis by simp
qed

section \<open>Keystrokes\<close>

lemma capitalize_single: "capitalize [c] = [ascii_upper c]"
  by (simp add: capitalize_def)

lemma is_ascii_letter_ascii_upper: "is_ascii_letter (ascii_upper c) = is_ascii_letter c"
  unfolding is_ascii_letter_def is_ascii_upper_def is_ascii_lower_def ascii_upper_def
  by (auto; arith)

lemma isalpha_single: "isalpha (capitalize [c]) = is_ascii_letter c"
  by (simp add: isalpha_def capitalize_single is_ascii_letter_ascii_upper)

lemma letter_decodes: "is_ascii_letter (of_char b) \<Longrightarrow> decode b = Inr [of_char b]"
  by (auto simp: decode_def is_ascii_letter_def is_ascii_upper_def is_ascii_lower_def)

lemma ascii_upper_idem: "ascii_upper (ascii_upper c) = ascii_upper c"
  unfolding ascii_upper_def is_ascii_lower_def by (auto; arith)

lemma of_char_upper_byte: "(of_char (upper_byte b) :: nat) = ascii_upper (of_char b)"
proof -
  have "(of_char b :: nat) < 256" by (rule nat_of_char_less_256)
  then have "ascii_upper (of_char b) < 256" unfolding ascii_upper_def by (auto; arith)
  then have "ascii_upper (of_char b) mod 256 = ascii_upper (of_char b)" by (rule mod_less)
  then show ?thesis by (simp add: upper_byte_def of_char_of)
qed

lemma start_loop_non_letter:
  "\<not> is_ascii_letter (of_char b) \<Longrightarrow>
   start_loop U bindings table ((b, P) # keys) =
     (render table,
      Terminated (if (of_char b :: nat) < 128 then Break else Exception UnicodeDecodeError))"
  by (simp add: decode_def isalpha_single)

lemma start_loop_letter:
  "is_ascii_letter (of_char b) \<Longrightarrow>
   start_loop U bindings table ((b, P) # keys) =
     (render table @ dispatch U bindings P [ascii_upper (of_char b)]
        @ fst (start_loop U bindings table keys),
      snd (start_loop U bindings table keys))"
  by (simp add: letter_decodes isalpha_single Let_def capitalize_single [symmetric]
      split: prod.splits)

lemma start_loop_upper_byte:
  "start_loop U bindings table ((upper_byte b, P) # keys)
     = start_loop U bindings table ((b, P) # keys)"
proof (cases "is_ascii_letter (of_char b)")
  case True
  then have "is_ascii_letter (of_char (upper_byte b))"
    by (simp add: of_char_upper_byte is_ascii_letter_ascii_upper)
  from start_loop_letter [OF this] start_loop_letter [OF True] show ?thesis
    by (simp add: of_char_upper_byte ascii_upper_idem)
next
  case False
  then have "ascii_upper (of_char b) = of_char b"
    by (simp add: ascii_upper_def is_ascii_letter_def)
  then have "(of_char (upper_byte b) :: nat) = of_char b" by (simp add: of_char_upper_byte)
  then have "upper_byte b = b" by simp
  then show ?thesis by simp
qed

text \<open>
  C7. A keystroke that is not a letter terminates the loop whatever the bindings are: the
  run has the rendering of the table and the read of the key and nothing after them, so
  there is no dispatch and no call of \<open>EnumWindows\<close>, and the keys that follow are never read.
  The loop is left by \<open>break\<close> when the byte is a character (below 128), and by the
  \<open>UnicodeDecodeError\<close> of \<open>decode\<close>, which nothing catches, when it is not.
\<close>

theorem non_letter_ends_loop:
  assumes "\<not> is_ascii_letter (of_char b)"
  shows "start_loop U bindings table ((b, P) # keys) =
       (render table,
        Terminated (if (of_char b :: nat) < 128 then Break else Exception UnicodeDecodeError))
     \<and> start_loop U bindings table ((b, P) # keys) = start_loop U bindings table [(b, P)]
     \<and> enumerations (fst (start_loop U bindings table ((b, P) # keys))) = []"
  using start_loop_non_letter [OF assms] by (simp add: render_def)

theorem non_letter_ends_loop_witness:
  "start_loop dotless_upper KEY_BINDINGS plain_table [(CHR ''5'', office), (CHR ''e'', office)] =
     (render plain_table, Terminated Break)"
proof -
  have "\<not> is_ascii_letter (of_char (CHR ''5''))" by code_simp
  note th = non_letter_ends_loop [OF this, of dotless_upper KEY_BINDINGS plain_table office
      "[(CHR ''e'', office)]"]
  have "(of_char (CHR ''5'') :: nat) < 128" by simp
  from th [unfolded if_P [OF this]] show ?thesis by blast
qed

section \<open>The case of keys\<close>

text \<open>
  C8, as stated, fails: \<open>clean_key_bindings\<close> does not change the case of a key. A binding
  written under \<open>e\<close> stays under \<open>e\<close>, and since the keystroke is looked up in upper case, the
  press of \<open>e\<close> finds nothing there, while it finds a binding written under \<open>E\<close>.
\<close>

theorem registry_keys_not_normalized:
  "map fst (clean_key_bindings [(ascii ''e'', ascii ''Excel'')]) = [ascii ''e'']
   \<and> upper dotless_upper (ascii ''e'') = ascii ''E''
   \<and> start_loop dotless_upper [(ascii ''e'', ascii ''Excel'')] plain_table [(CHR ''e'', office)]
       = (render plain_table @ render plain_table, AwaitingKey)
   \<and> start_loop dotless_upper [(ascii ''E'', ascii ''Excel'')] plain_table [(CHR ''e'', office)]
       = (render plain_table @ activate_app dotless_upper office (ascii ''Excel'')
            @ render plain_table, AwaitingKey)"
proof -
  have "map fst (clean_key_bindings [(ascii ''e'', ascii ''Excel'')]) = [ascii ''e'']"
    by (simp add: clean_key_bindings_def strip_def is_space_def ascii_def)
  moreover have "upper dotless_upper (ascii ''e'') = ascii ''E''" by code_simp
  moreover have "start_loop dotless_upper [(ascii ''e'', ascii ''Excel'')] plain_table
         [(CHR ''e'', office)]
       = (render plain_table @ render plain_table, AwaitingKey)" by code_simp
  moreover have "start_loop dotless_upper [(ascii ''E'', ascii ''Excel'')] plain_table
         [(CHR ''e'', office)]
       = (render plain_table @ activate_app dotless_upper office (ascii ''Excel'')
            @ render plain_table, AwaitingKey)" by code_simp
  ultimately show ?thesis by simp
qed

text \<open>
  C8, amended. Only the keystroke is normalized. The registry holds entries of the raw
  bindings with their keys as written; the byte read is capitalized before the lookup, so
  the press of a letter runs exactly as the press of its upper-case form, and the key looked
  up is that upper-case letter.
\<close>

theorem keystroke_normalized:
  "set (clean_key_bindings bindings) \<subseteq> set bindings
   \<and> start_loop U bindings table ((b, P) # keys)
       = start_loop U bindings table ((upper_byte b, P) # keys)
   \<and> (is_ascii_letter (of_char b) \<longrightarrow>
        start_loop U bindings table ((b, P) # keys) =
          (render table @ dispatch U bindings P [of_char (upper_byte b)]
             @ fst (start_loop U bindings table keys),
           snd (start_loop U bindings table keys)))"
  using set_comprehension [of bindings "[]"] start_loop_upper_byte [of U bindings table b P keys]
    start_loop_letter [of b U bindings table P keys]
  by (simp add: clean_key_bindings_def of_char_upper_byte)

theorem keystroke_normalized_witness:
  "start_loop dotless_upper KEY_BINDINGS plain_table [(CHR ''e'', office)]
     = start_loop dotless_upper KEY_BINDINGS plain_table [(CHR ''E'', office)]
   \<and> start_loop dotless_upper KEY_BINDINGS plain_table [(CHR ''e'', office)]
     = (render plain_table @ dispatch dotless_upper KEY_BINDINGS office (ascii ''E'')
          @ render plain_table, AwaitingKey)"
proof -
  have l: "is_ascii_letter (of_char (CHR ''e''))" by code_simp
  have u: "upper_byte (CHR ''e'') = CHR ''E''" by code_simp
  have a: "[of_char (CHR ''E'') :: nat] = ascii ''E''" by (simp add: ascii_def)
  have e: "start_loop dotless_upper KEY_BINDINGS plain_table [] = (render plain_table, AwaitingKey)"
    by simp
  note th = keystroke_normalized [of KEY_BINDINGS dotless_upper plain_table "CHR ''e''" office
      "[]", unfolded u a e fst_conv snd_conv]
  from th l show ?thesis by blast
qed

section \<open>Raw bindings and the filtered registry\<close>

lemma letter_not_space: "is_ascii_letter c \<Longrightarrow> \<not> is_space c"
  by (auto simp: is_ascii_letter_def is_ascii_upper_def is_ascii_lower_def is_space_def)

lemma isalpha_strip: "isalpha s \<Longrightarrow> strip s \<noteq> []"
  unfolding strip_empty_iff blank_def isalpha_def
  by (cases s) (auto dest: letter_not_space)

lemma map_of_filter_distinct:
  "distinct (map fst bs) \<Longrightarrow>
   map_of (filter (\<lambda>(k, v). Q k v) bs) k =
     (case map_of bs k of None \<Rightarrow> None | Some v \<Rightarrow> if Q k v then Some v else None)"
proof (induction bs)
  case Nil
  then show ?case by simp
next
  case (Cons b bs)
  obtain k' v' where b: "b = (k', v')" by (cases b)
  from Cons.prems have d: "distinct (map fst bs)" and n: "k' \<notin> fst ` set bs" by (auto simp: b)
  show ?case
  proof (cases "k' = k")
    case True
    with n have "map_of bs k = None" by (simp add: map_of_eq_None_iff)
    moreover from n True have "map_of (filter (\<lambda>(k, v). Q k v) bs) k = None"
      by (auto simp: map_of_eq_None_iff)
    ultimately show ?thesis using True by (simp add: b)
  next
    case False
    with Cons.IH [OF d] show ?thesis by (simp add: b)
  qed
qed

lemma dispatch_clean:
  assumes "distinct (map fst bindings)"
    and "\<forall>(key, fragment)\<in>set bindings. fragment = [] \<or> strip fragment \<noteq> []"
    and "strip key_input \<noteq> []"
  shows "dispatch U (clean_key_bindings bindings) P key_input = dispatch U bindings P key_input"
proof (cases "map_of bindings key_input")
  case None
  then show ?thesis
    by (simp add: dispatch_def clean_key_bindings_filter [OF assms(1)]
        map_of_filter_distinct [OF assms(1)])
next
  case (Some fragment)
  then have "(key_input, fragment) \<in> set bindings" by (rule map_of_SomeD)
  with assms(2) have "fragment = [] \<or> strip fragment \<noteq> []" by auto
  then show ?thesis
  proof
    assume "fragment = []"
    then have "strip fragment = []" by (simp add: strip_def)
    with Some assms(3) \<open>fragment = []\<close> show ?thesis
      by (simp add: dispatch_def clean_key_bindings_filter [OF assms(1)]
          map_of_filter_distinct [OF assms(1)] activate_app_def)
  next
    assume "strip fragment \<noteq> []"
    with Some assms(3) show ?thesis
      by (simp add: dispatch_def clean_key_bindings_filter [OF assms(1)]
          map_of_filter_distinct [OF assms(1)])
  qed
qed

lemma start_loop_clean:
  assumes "distinct (map fst bindings)"
    and "\<forall>(key, fragment)\<in>set bindings. fragment = [] \<or> strip fragment \<noteq> []"
  shows "start_loop U (clean_key_bindings bindings) table keys = start_loop U bindings table keys"
proof (induction keys)
  case Nil
  show ?case by simp
next
  case (Cons k keys)
  obtain b P where k: "k = (b, P)" by (cases k)
  show ?case
  proof (cases "is_ascii_letter (of_char b)")
    case True
    then have "isalpha [ascii_upper (of_char b)]"
      by (simp add: isalpha_def is_ascii_letter_ascii_upper)
    then have "strip [ascii_upper (of_char b)] \<noteq> []" by (rule isalpha_strip)
    note d = dispatch_clean [OF assms this]
    show ?thesis
      unfolding k start_loop_letter [OF True] Cons.IH d by simp
  next
    case False
    show ?thesis
      unfolding k start_loop_non_letter [OF False] by simp
  qed
qed

text \<open>
  C10. For a bindings dictionary in which every fragment is empty or not empty after
  \<open>strip\<close>, the loop that looks keys up in the raw bindings, as the program does, runs exactly
  as the loop that looks them up in the filtered registry: same events, so same activation
  attempts and same output, and same end. The same holds for one dispatch of an alphabetic
  key.
\<close>

theorem raw_dispatch_equivalent:
  assumes "distinct (map fst bindings)"
    and "\<forall>(key, fragment)\<in>set bindings. fragment = [] \<or> strip fragment \<noteq> []"
  shows "start_loop U bindings table keys = start_loop U (clean_key_bindings bindings) table keys
     \<and> (isalpha key_input \<longrightarrow>
          dispatch U bindings P key_input = dispatch U (clean_key_bindings bindings) P key_input)"
  using start_loop_clean [OF assms] dispatch_clean [OF assms] isalpha_strip by simp

theorem raw_dispatch_equivalent_witness:
  "start_loop dotless_upper blank_fragment_example plain_table
       [(CHR ''a'', office), (CHR ''e'', office)]
     = start_loop dotless_upper [(ascii ''E'', ascii ''Excel'')] plain_table
         [(CHR ''a'', office), (CHR ''e'', office)]
   \<and> dispatch dotless_upper blank_fragment_example office (ascii ''A'')
     = dispatch dotless_upper [(ascii ''E'', ascii ''Excel'')] office (ascii ''A'')
   \<and> dispatch dotless_upper blank_fragment_example office (ascii ''A'') = []"
proof -
  have 1: "distinct (map fst blank_fragment_example)"
    by (simp add: blank_fragment_example_def ascii_def)
  have 2: "\<forall>(key, fragment)\<in>set blank_fragment_example.
      fragment = [] \<or> strip fragment \<noteq> []"
    by (simp add: blank_fragment_example_def strip_def is_space_def ascii_def)
  have 3: "isalpha (ascii ''A'')" by code_simp
  have 4: "clean_key_bindings blank_fragment_example = [(ascii ''E'', ascii ''Excel'')]"
    by (simp add: clean_key_bindings_def blank_fragment_example_def strip_def is_space_def
        ascii_def)
  have 5: "dispatch dotless_upper blank_fragment_example office (ascii ''A'') = []"
    by code_simp
  note th = raw_dispatch_equivalent [OF 1 2, of dotless_upper plain_table
      "[(CHR ''a'', office), (CHR ''e'', office)]" "ascii ''A''" office, unfolded 4]
  from th 3 5 show ?thesis by blast
qed

end
